theory Spec2Isabelle
  imports Main "HOL-Library.Sublist"
begin

section \<open>Python values and string helpers\<close>

text \<open>
  The values that travel through the task queues and the argument namespaces are Python
  ints and strs. What the image worker's \<^verbatim>\<open>get\<close> returns is a str or a bytes object.
  Strings and byte strings are both character lists.
\<close>

datatype pyval = PInt int | PStr string

datatype pydata = Str string | Bytes string

datatype error = AttributeError | TypeError

text \<open>Python's \<^verbatim>\<open>s in t\<close> on strings: \<open>s\<close> occurs in \<open>t\<close> as a contiguous run.\<close>

definition str_in :: "string \<Rightarrow> string \<Rightarrow> bool" where
  "str_in s t = sublist s t"

text \<open>Truthiness of a str or bytes object: non-empty.\<close>

fun truthy :: "pydata \<Rightarrow> bool" where
  "truthy (Str s) = (s \<noteq> [])"
| "truthy (Bytes b) = (b \<noteq> [])"

fun payload :: "pydata \<Rightarrow> string" where
  "payload (Str s) = s"
| "payload (Bytes b) = b"

text \<open>
  \<^verbatim>\<open>s.split(c)\<close> for a one-character separator. The result is never empty
  (\<open>split_on_not_Nil\<close> below), so its last element \<^verbatim>\<open>[-1]\<close> always exists.
\<close>

fun split_on :: "char \<Rightarrow> string \<Rightarrow> string list" where
  "split_on c [] = [[]]"
| "split_on c (x # xs) =
     (if x = c then [] # split_on c xs
      else (case split_on c xs of
              [] \<Rightarrow> [[x]]
            | p # ps \<Rightarrow> (x # p) # ps))"

text \<open>\<^verbatim>\<open>str(n)\<close> for an int, as the f-strings format a page number.\<close>

definition digit_char :: "nat \<Rightarrow> char" where
  "digit_char d = ''0123456789'' ! d"

fun str_nat :: "nat \<Rightarrow> string" where
  "str_nat n = (if n < 10 then [digit_char n] else str_nat (n div 10) @ [digit_char (n mod 10)])"

declare str_nat.simps [simp del]

definition str_int :: "int \<Rightarrow> string" where
  "str_int i = (if i < 0 then CHR ''-'' # str_nat (nat (- i)) else str_nat (nat i))"

fun py_str :: "pyval \<Rightarrow> string" where
  "py_str (PInt i) = str_int i"
| "py_str (PStr s) = s"

section \<open>The world a worker acts on\<close>

text \<open>
  A worker reads remote endpoints, writes files and puts status strings on the result
  queue. The endpoints are a function from a URL to the response it serves (every request
  is answered; query parameters are part of the endpoint). The files are a map from a path
  to the file's contents. Every effect also appends an event to \<open>events\<close>, so that the
  order of effects can be stated.
\<close>

record response =
  status :: int
  body :: string

datatype event = EGet string | EOpen string | EWrite string | EPut string

record world =
  files :: "string \<rightharpoonup> string"
  result_queue :: "string list"
  events :: "event list"

record env =
  net :: "string \<Rightarrow> response"
  xpath_img_src :: "string \<Rightarrow> string list"
  xpath_pag_count :: "string \<Rightarrow> int"
  cpu_count :: int

text \<open>
  \<open>xpath_img_src\<close> stands for lxml's \<^verbatim>\<open>html.fromstring(text).xpath('//img/@src')\<close> and
  \<open>xpath_pag_count\<close> for the page count that \<^verbatim>\<open>main\<close> reads off the first listing page; both
  belong to the library, not to the repository, and are taken as total functions.
\<close>

definition http_get :: "env \<Rightarrow> string \<Rightarrow> world \<Rightarrow> response \<times> world" where
  "http_get e u w = (net e u, w\<lparr>events := events w @ [EGet u]\<rparr>)"

text \<open>Opening with mode \<^verbatim>\<open>w\<close> or \<^verbatim>\<open>wb\<close> creates the file or cuts it to length zero.\<close>

definition open_trunc :: "string \<Rightarrow> world \<Rightarrow> world" where
  "open_trunc p w = w\<lparr>files := (files w)(p \<mapsto> []), events := events w @ [EOpen p]\<rparr>"

text \<open>Opening with mode \<^verbatim>\<open>a\<close> creates the file when it is missing and keeps it otherwise.\<close>

definition open_append :: "string \<Rightarrow> world \<Rightarrow> world" where
  "open_append p w =
     w\<lparr>files := (files w)(p \<mapsto> (case files w p of None \<Rightarrow> [] | Some old \<Rightarrow> old)),
       events := events w @ [EOpen p]\<rparr>"

definition file_write :: "string \<Rightarrow> string \<Rightarrow> world \<Rightarrow> world" where
  "file_write p d w =
     w\<lparr>files := (files w)(p \<mapsto> (case files w p of None \<Rightarrow> [] | Some old \<Rightarrow> old) @ d),
       events := events w @ [EWrite p]\<rparr>"

definition result_put :: "string \<Rightarrow> world \<Rightarrow> world" where
  "result_put r w = w\<lparr>result_queue := result_queue w @ [r], events := events w @ [EPut r]\<rparr>"

fun put_all :: "string list \<Rightarrow> world \<Rightarrow> world" where
  "put_all [] w = w"
| "put_all (r # rs) w = put_all rs (result_put r w)"

section \<open>Coroutines and the event loop\<close>

text \<open>
  A coroutine runs until its next \<^verbatim>\<open>await\<close>, where the event loop may run another one.
  The coroutines of the workers await two things: an HTTP GET, whose response they go on
  with, and an operation on a file (the open and the write of \<^verbatim>\<open>aiofiles\<close>). A coroutine is
  what is left of it to run: it has returned a value, or it is suspended at a GET, or at a
  file operation. The request and the reading of the response are one step, and the closing
  of a file is left out: neither changes anything that the other coroutines or the
  statements below can see.
\<close>

datatype io_op = OpenTrunc string | OpenAppend string | Write string string

fun perform :: "io_op \<Rightarrow> world \<Rightarrow> world" where
  "perform (OpenTrunc p) w = open_trunc p w"
| "perform (OpenAppend p) w = open_append p w"
| "perform (Write p d) w = file_write p d w"

datatype 'r coro =
    Return 'r
  | AwaitGet string "response \<Rightarrow> 'r coro"
  | AwaitIO io_op "'r coro"

text \<open>One turn of the event loop for a coroutine: it runs up to its next suspension.\<close>

fun resume :: "env \<Rightarrow> 'r coro \<Rightarrow> world \<Rightarrow> 'r coro \<times> world" where
  "resume e (Return r) w = (Return r, w)"
| "resume e (AwaitGet u k) w = (let (resp, w1) = http_get e u w in (k resp, w1))"
| "resume e (AwaitIO op c) w = (c, perform op w)"

text \<open>A coroutine awaited while no other one runs: it runs to its end.\<close>

primrec run_co :: "env \<Rightarrow> 'r coro \<Rightarrow> world \<Rightarrow> 'r \<times> world" where
  "run_co e (Return r) = (\<lambda>w. (r, w))"
| "run_co e (AwaitGet u k) = (\<lambda>w. let (resp, w1) = http_get e u w in run_co e (k resp) w1)"
| "run_co e (AwaitIO op c) = (\<lambda>w. run_co e c (perform op w))"

text \<open>\<^verbatim>\<open>x = await c\<close> followed by \<^verbatim>\<open>f(x)\<close>, inside a coroutine.\<close>

primrec bind_co :: "'a coro \<Rightarrow> ('a \<Rightarrow> 'b coro) \<Rightarrow> 'b coro" where
  "bind_co (Return r) f = f r"
| "bind_co (AwaitGet u k) f = AwaitGet u (\<lambda>resp. bind_co (k resp) f)"
| "bind_co (AwaitIO op c) f = AwaitIO op (bind_co c f)"

text \<open>
  \<^verbatim>\<open>asyncio.gather\<close> starts all its coroutines; the event loop resumes them in an order that
  the program does not control. A schedule is the list of the indices of the coroutines in
  the order in which the loop resumes them; an index that names no coroutine, or one that
  has returned, resumes nothing. \<open>run_sched\<close> follows a schedule and remembers the first
  exception raised. An exception does not stop the other coroutines: they go on for as long
  as the schedule resumes them.
\<close>

fun run_sched ::
  "env \<Rightarrow> nat list \<Rightarrow> (error + string) coro list \<Rightarrow> world \<Rightarrow> error option
     \<Rightarrow> (error + string) coro list \<times> world \<times> error option" where
  "run_sched e [] cs w raised = (cs, w, raised)"
| "run_sched e (i # sch) cs w raised =
     (if i < length cs then
        (let (c', w') = resume e (cs ! i) w;
             raised' = (case raised of
                          Some err \<Rightarrow> Some err
                        | None \<Rightarrow> (case c' of Return (Inl err) \<Rightarrow> Some err | _ \<Rightarrow> None))
         in run_sched e sch (cs[i := c']) w' raised')
      else run_sched e sch cs w raised)"

text \<open>
  The coroutines that are left run to their ends one after the other, up to the first
  exception.
\<close>

fun finish :: "env \<Rightarrow> (error + string) coro list \<Rightarrow> world \<Rightarrow> (error + string list) \<times> world" where
  "finish e [] w = (Inr [], w)"
| "finish e (c # cs) w =
     (case run_co e c w of
        (Inl err, w1) \<Rightarrow> (Inl err, w1)
      | (Inr r, w1) \<Rightarrow>
          (case finish e cs w1 of
             (Inl err, w2) \<Rightarrow> (Inl err, w2)
           | (Inr rs, w2) \<Rightarrow> (Inr (r # rs), w2)))"

text \<open>
  \<^verbatim>\<open>await asyncio.gather(*tasks)\<close> under the schedule \<open>sch\<close>. When a coroutine has raised,
  the awaiting coroutine gets the first exception, and the others are cancelled where the
  schedule has left them. Otherwise the loop goes on until every coroutine has returned
  (the schedule says in which order up to its end, the list order holds from there), and
  the results come back in the order of the coroutines. Every execution of the gathering
  is the one of some schedule.
\<close>

definition gather ::
  "env \<Rightarrow> nat list \<Rightarrow> (error + string) coro list \<Rightarrow> world \<Rightarrow> (error + string list) \<times> world" where
  "gather e sch cs w =
     (let (cs1, w1, raised) = run_sched e sch cs w None
      in case raised of
           Some err \<Rightarrow> (Inl err, w1)
         | None \<Rightarrow> finish e cs1 w1)"

section \<open>The intake loop of a worker\<close>

text \<open>
  Both \<^verbatim>\<open>run\<close> methods start with the same loop: take the next value off the task queue,
  leave the loop when it equals \<^verbatim>\<open>'done'\<close>, append it to the batch otherwise. \<open>got\<close> records
  every value the worker took off the queue. The \<^verbatim>\<open>task_done\<close> acknowledgements are left out:
  nothing ever joins the task queue.
\<close>

record 'a worker =
  batch :: "'a list"
  running :: bool
  got :: "'a list"

definition new_worker :: "'a worker" where
  "new_worker = \<lparr>batch = [], running = True, got = []\<rparr>"

definition intake_step :: "'a \<Rightarrow> 'a \<Rightarrow> 'a worker \<Rightarrow> 'a worker" where
  "intake_step d t wk =
     (if t = d then wk\<lparr>running := False, got := got wk @ [t]\<rparr>
      else wk\<lparr>batch := batch wk @ [t], got := got wk @ [t]\<rparr>)"

text \<open>
  One worker alone on a queue holding \<open>q\<close>: the loop ends with the batch and the rest of
  the queue, or blocks for ever on the empty queue (\<open>None\<close>).
\<close>

fun intake :: "'a \<Rightarrow> 'a list \<Rightarrow> 'a worker \<Rightarrow> ('a worker \<times> 'a list) option" where
  "intake d [] wk = None"
| "intake d (t # q) wk =
     (let wk' = intake_step d t wk
      in if running wk' then intake d q wk' else Some (wk', q))"

section \<open>The image worker\<close>

record config =
  URL :: string
  OUT_DIR :: string
  AMOUNT_PAGES :: int
  ITEM :: string

record image_self =
  img_url :: string
  img_out_dir :: string
  img_mode :: string
  img_item :: string

definition Image_get :: "string \<Rightarrow> string \<Rightarrow> pydata coro" where
  "Image_get u content_type =
     AwaitGet u (\<lambda>resp.
       if status resp \<noteq> 200 then Return (Str ''failed'')
       else if content_type = ''text'' then Return (Str (body resp))
       else Return (Bytes (body resp)))"

text \<open>
  The file is opened in binary mode: writing a bytes object succeeds, writing a str raises
  TypeError after the file has been created.
\<close>

definition Image_aio_process :: "config \<Rightarrow> string \<Rightarrow> string \<Rightarrow> (error + string) coro" where
  "Image_aio_process cfg image_url content_type =
     (let img_path = OUT_DIR cfg @ ''/'' @ last (split_on CHR ''/'' image_url)
      in bind_co (Image_get image_url content_type) (\<lambda>image.
           if truthy image then
             AwaitIO (OpenTrunc img_path)
               (case image of
                  Bytes b \<Rightarrow> AwaitIO (Write img_path b) (Return (Inr (''Fetch succeeded: '' @ image_url)))
                | Str s \<Rightarrow> Return (Inl TypeError))
           else Return (Inr (''Fetch succeeded: '' @ image_url))))"

text \<open>
  The loop over the pages of \<^verbatim>\<open>asyncio_sessions\<close>: it collects the image URLs to fetch.
  No other coroutine runs yet: those of the images start in \<^verbatim>\<open>gather\<close>.
\<close>

fun Image_collect ::
  "image_self \<Rightarrow> config \<Rightarrow> env \<Rightarrow> pyval list \<Rightarrow> string list \<Rightarrow> world \<Rightarrow> string list \<times> world" where
  "Image_collect self cfg e [] tasks w = (tasks, w)"
| "Image_collect self cfg e (page # pages) tasks w =
     (let (response, w1) =
            run_co e (Image_get (URL cfg @ ''p'' @ py_str page @ ''/'' @ img_item self @ ''.html'') ''text'') w;
          srcs = xpath_img_src e (payload response)
      in Image_collect self cfg e pages
           (tasks @ filter (str_in ''images.stockfreeimages.com'') srcs) w1)"

definition Image_asyncio_sessions ::
  "image_self \<Rightarrow> config \<Rightarrow> env \<Rightarrow> nat list \<Rightarrow> pyval list \<Rightarrow> world \<Rightarrow> (error + unit) \<times> world" where
  "Image_asyncio_sessions self cfg e sch pages w =
     (let (tasks, w1) = Image_collect self cfg e pages [] w;
          (res, w2) = gather e sch (map (\<lambda>image_url. Image_aio_process cfg image_url ''image'') tasks) w1
      in case res of
           Inl err \<Rightarrow> (Inl err, w2)
         | Inr results \<Rightarrow> (Inr (), put_all results w2))"

text \<open>The inner loop of \<^verbatim>\<open>sync_process\<close> over the image URLs of one page.\<close>

fun Image_sync_page :: "env \<Rightarrow> pyval \<Rightarrow> string list \<Rightarrow> world \<Rightarrow> world" where
  "Image_sync_page e page [] w = w"
| "Image_sync_page e page (image_url # rest) w =
     (if str_in ''images.stockfreeimages.com'' image_url then
        (let (r, w1) = http_get e image_url w
         in if status r = 200 then
              (let p = ''images/'' @ last (split_on CHR ''/'' image_url);
                   w2 = file_write p (body r) (open_trunc p w1)
               in Image_sync_page e page rest (result_put (py_str page @ '' fetch succeeded'') w2))
            else Image_sync_page e page rest w1)
      else Image_sync_page e page rest w)"

fun Image_sync_process :: "image_self \<Rightarrow> env \<Rightarrow> pyval list \<Rightarrow> world \<Rightarrow> world" where
  "Image_sync_process self e [] w = w"
| "Image_sync_process self e (page # pages) w =
     (let (res, w1) = http_get e (img_url self @ ''p'' @ py_str page @ ''/'' @ img_item self @ ''.html'') w
      in Image_sync_process self e pages (Image_sync_page e page (xpath_img_src e (body res)) w1))"

text \<open>
  \<^verbatim>\<open>run\<close> of one worker that finds \<open>q\<close> on the task queue: \<open>None\<close> when the intake loop
  never ends, otherwise the outcome of the processing, the world after it and what is left
  on the queue. \<open>sch\<close> is the schedule of the event loop, should the mode be concurrent.
\<close>

definition Image_run ::
  "image_self \<Rightarrow> config \<Rightarrow> env \<Rightarrow> nat list \<Rightarrow> pyval list \<Rightarrow> world
     \<Rightarrow> (((error + unit) \<times> world) \<times> pyval list) option" where
  "Image_run self cfg e sch q w =
     (case intake (PStr ''done'') q new_worker of
        None \<Rightarrow> None
      | Some (wk, q') \<Rightarrow>
          Some (if img_mode self = ''async'' then Image_asyncio_sessions self cfg e sch (batch wk) w
                else (Inr (), Image_sync_process self e (batch wk) w), q'))"

section \<open>The ticker worker\<close>

record ticker_self =
  tk_base_url :: string
  tk_out_dir :: string
  tk_mode :: string

definition Ticker_get :: "ticker_self \<Rightarrow> string \<Rightarrow> string coro" where
  "Ticker_get self ticker =
     (let u = tk_base_url self @ ticker
      in AwaitGet u (\<lambda>resp. if status resp \<noteq> 200 then Return [] else Return (body resp)))"

definition Ticker_aio_process :: "ticker_self \<Rightarrow> string \<Rightarrow> (error + string) coro" where
  "Ticker_aio_process self ticker =
     (let fname = tk_out_dir self @ ''/'' @ ticker @ ''.csv''
      in bind_co (Ticker_get self ticker) (\<lambda>res.
           if res = [] then Return (Inr (ticker @ '' fetch failed''))
           else AwaitIO (OpenAppend fname)
                  (AwaitIO (Write fname res) (Return (Inr (ticker @ '' fetch succeeded''))))))"

definition Ticker_asyncio_sessions ::
  "ticker_self \<Rightarrow> env \<Rightarrow> nat list \<Rightarrow> string list \<Rightarrow> world \<Rightarrow> (error + unit) \<times> world" where
  "Ticker_asyncio_sessions self e sch tickers w =
     (let (res, w1) = gather e sch (map (\<lambda>t. Ticker_aio_process self t) tickers) w
      in case res of
           Inl err \<Rightarrow> (Inl err, w1)
         | Inr results \<Rightarrow> (Inr (), put_all results w1))"

fun Ticker_sync_process :: "ticker_self \<Rightarrow> env \<Rightarrow> string list \<Rightarrow> world \<Rightarrow> world" where
  "Ticker_sync_process self e [] w = w"
| "Ticker_sync_process self e (ticker # tickers) w =
     (let u = tk_base_url self @ ticker;
          (resp, w1) = http_get e u w
      in if status resp \<noteq> 200 then
           Ticker_sync_process self e tickers (result_put (ticker @ '' fetch failed'') w1)
         else
           (let file_name = tk_out_dir self @ ''/'' @ ticker @ ''.csv'';
                w2 = file_write file_name (body resp) (open_trunc file_name w1)
            in Ticker_sync_process self e tickers (result_put (ticker @ '' fetch succeeded'') w2)))"


section \<open>The coordinators\<close>

text \<open>
  The namespace that argparse returns is a map from attribute names to values; reading an
  attribute it does not hold raises AttributeError. The parsers are given the values of
  their options (as typed on the command line, or the defaults).
\<close>

type_synonym namespace = "string \<rightharpoonup> pyval"

definition parse_cli_args :: "string \<Rightarrow> int \<Rightarrow> namespace" where
  "parse_cli_args m p = [''mode'' \<mapsto> PStr m, ''process'' \<mapsto> PInt p]"

definition parse_clargs :: "string \<Rightarrow> int \<Rightarrow> int \<Rightarrow> string \<Rightarrow> string \<Rightarrow> namespace" where
  "parse_clargs m c p t out =
     [''mode'' \<mapsto> PStr m, ''count'' \<mapsto> PInt c, ''parallel'' \<mapsto> PInt p,
      ''tickerconf'' \<mapsto> PStr t, ''outdir'' \<mapsto> PStr out]"

text \<open>Reading an attribute that is used as an int, and one that is used as a str.\<close>

definition getattr_int :: "namespace \<Rightarrow> string \<Rightarrow> error + int" where
  "getattr_int ns a =
     (case ns a of None \<Rightarrow> Inl AttributeError | Some (PInt n) \<Rightarrow> Inr n | Some (PStr s) \<Rightarrow> Inl TypeError)"

definition getattr_str :: "namespace \<Rightarrow> string \<Rightarrow> error + string" where
  "getattr_str ns a =
     (case ns a of None \<Rightarrow> Inl AttributeError | Some (PStr s) \<Rightarrow> Inr s | Some (PInt n) \<Rightarrow> Inl TypeError)"

definition bind_err :: "error + 'a \<Rightarrow> ('a \<Rightarrow> error + 'b) \<Rightarrow> error + 'b" where
  "bind_err m f = (case m of Inl err \<Rightarrow> Inl err | Inr x \<Rightarrow> f x)"

text \<open>
  \<^verbatim>\<open>sum(1 for _ in range(n) if 'failed' in result_q.get())\<close> over the records that ever
  arrive on the result queue: each of the \<open>n\<close> rounds takes one record; a round that finds
  none blocks for ever (\<open>None\<close>).
\<close>

fun count_failed :: "nat \<Rightarrow> string list \<Rightarrow> nat option" where
  "count_failed 0 rs = Some 0"
| "count_failed (Suc n) [] = None"
| "count_failed (Suc n) (r # rs) =
     (case count_failed n rs of
        None \<Rightarrow> None
      | Some k \<Rightarrow> Some ((if str_in ''failed'' r then 1 else 0) + k))"

text \<open>
  What a coordinator does: the workers it starts, the values it puts on the task queue, the
  number of rounds of its tally (one blocking read each) and the failure count it logs.
\<close>

record ('a, 'w) coordinator =
  workers :: "'w list"
  enqueued :: "'a list"
  reads :: nat
  fail_count :: "nat option"

record ticker_config =
  tickers :: "string list"
  base_url :: string

text \<open>The enqueueing loop of the ticker coordinator, from index \<open>idx\<close> on.\<close>

fun enqueue_tickers :: "int \<Rightarrow> nat \<Rightarrow> string list \<Rightarrow> string list" where
  "enqueue_tickers fetch_count idx [] = []"
| "enqueue_tickers fetch_count idx (item # rest) =
     (if int idx \<ge> fetch_count then [] else item # enqueue_tickers fetch_count (Suc idx) rest)"

definition Ticker_main ::
  "namespace \<Rightarrow> env \<Rightarrow> ticker_config \<Rightarrow> string list \<Rightarrow> error + (string, ticker_self) coordinator" where
  "Ticker_main args e tc results =
     bind_err (getattr_int args ''count'') (\<lambda>fetch_count.
     bind_err (getattr_int args ''parallel'') (\<lambda>parallel.
     bind_err (getattr_str args ''outdir'') (\<lambda>outdir.
     bind_err (getattr_str args ''mode'') (\<lambda>mode.
       (let process_count = (if parallel > cpu_count e then cpu_count e else parallel);
            self = \<lparr>tk_base_url = base_url tc, tk_out_dir = outdir, tk_mode = mode\<rparr>
        in Inr \<lparr>workers = replicate (nat process_count) self,
                enqueued = enqueue_tickers fetch_count 0 (tickers tc)
                           @ replicate (nat process_count) ''done'',
                reads = nat fetch_count,
                fail_count = count_failed (nat fetch_count) results\<rparr>)))))"

definition Image_main ::
  "namespace \<Rightarrow> env \<Rightarrow> config \<Rightarrow> string list \<Rightarrow> error + (pyval, image_self) coordinator" where
  "Image_main args e cfg results =
     bind_err (getattr_int args ''parallel'') (\<lambda>parallel.
     bind_err (getattr_str args ''mode'') (\<lambda>mode.
       (let response = net e (URL cfg @ ''/p1/'' @ ITEM cfg @ ''.html'');
            amount_pages_on_site = xpath_pag_count e (body response);
            amount_pages = (if AMOUNT_PAGES cfg > amount_pages_on_site then amount_pages_on_site
                            else AMOUNT_PAGES cfg);
            process_count = (if parallel < cpu_count e then cpu_count e else parallel);
            self = \<lparr>img_url = URL cfg, img_out_dir = OUT_DIR cfg, img_mode = mode, img_item = ITEM cfg\<rparr>
        in Inr \<lparr>workers = replicate (nat process_count) self,
                enqueued = map (\<lambda>page_number. PInt (int page_number + 1)) [0..<nat amount_pages]
                           @ replicate (nat process_count) (PStr ''done''),
                reads = nat amount_pages,
                fail_count = count_failed (nat amount_pages) results\<rparr>)))"

section \<open>Workers sharing the task queue\<close>

text \<open>
  The coordinator puts its values one at a time; every worker still in its intake loop may
  take the value at the head of the queue. \<open>pending\<close> holds what the coordinator has
  still to put.
\<close>

record 'a pool =
  pending :: "'a list"
  task_queue :: "'a list"
  intakes :: "'a worker list"

inductive pool_step :: "'a \<Rightarrow> 'a pool \<Rightarrow> 'a pool \<Rightarrow> bool" for d :: 'a where
  put: "pending s = t # p \<Longrightarrow>
        pool_step d s (s\<lparr>pending := p, task_queue := task_queue s @ [t]\<rparr>)"
| get: "task_queue s = t # q \<Longrightarrow> i < length (intakes s) \<Longrightarrow> running (intakes s ! i) \<Longrightarrow>
        pool_step d s (s\<lparr>task_queue := q, intakes := (intakes s)[i := intake_step d t (intakes s ! i)]\<rparr>)"

definition pool_init :: "'a list \<Rightarrow> nat \<Rightarrow> 'a pool" where
  "pool_init puts n = \<lparr>pending = puts, task_queue = [], intakes = replicate n new_worker\<rparr>"

definition pool_measure :: "'a pool \<Rightarrow> nat" where
  "pool_measure s = 2 * length (pending s) + length (task_queue s)"

section \<open>Example inputs\<close>

text \<open>
  A site with three listing pages: page 1 shows two images of the image host (and one of
  another host), both served with status 200; page 2 shows one image of the image host,
  served with status 404; page 3 shows that image and then the first image of page 1. The image host also serves an image named \<open>failed.jpg\<close>.
  A ticker endpoint that knows \<open>AAA\<close> only.
\<close>

definition ex_env :: env where
  "ex_env =
     \<lparr>net = (\<lambda>u.
         if u = ''http://x/p1/cat.html'' then \<lparr>status = 200, body = ''page1''\<rparr>
         else if u = ''http://x/p2/cat.html'' then \<lparr>status = 200, body = ''page2''\<rparr>
         else if u = ''http://x/p3/cat.html'' then \<lparr>status = 200, body = ''page3''\<rparr>
         else if u = ''http://images.stockfreeimages.com/a.jpg'' then \<lparr>status = 200, body = ''AAAA''\<rparr>
         else if u = ''http://images.stockfreeimages.com/b.jpg'' then \<lparr>status = 200, body = ''BBBB''\<rparr>
         else if u = ''http://images.stockfreeimages.com/failed.jpg'' then \<lparr>status = 200, body = ''FFFF''\<rparr>
         else if u = ''http://t/AAA'' then \<lparr>status = 200, body = ''new''\<rparr>
         else \<lparr>status = 404, body = ''not found''\<rparr>),
      xpath_img_src = (\<lambda>t.
         if t = ''page1'' then [''http://images.stockfreeimages.com/a.jpg'', ''http://other/c.png'',
                               ''http://images.stockfreeimages.com/b.jpg'']
         else if t = ''page2'' then [''http://images.stockfreeimages.com/d.jpg'']
         else if t = ''page3'' then [''http://images.stockfreeimages.com/d.jpg'',
                                    ''http://images.stockfreeimages.com/a.jpg'']
         else []),
      xpath_pag_count = (\<lambda>t. 2),
      cpu_count = 4\<rparr>"

definition ex_world :: world where
  "ex_world = \<lparr>files = Map.empty, result_queue = [], events = []\<rparr>"

definition ex_world_old :: world where
  "ex_world_old = \<lparr>files = [''tickerdata/AAA.csv'' \<mapsto> ''old''], result_queue = [], events = []\<rparr>"

definition ex_config :: config where
  "ex_config = \<lparr>URL = ''http://x/'', OUT_DIR = ''out'', AMOUNT_PAGES = 2, ITEM = ''cat''\<rparr>"

definition ex_image :: "string \<Rightarrow> image_self" where
  "ex_image m = \<lparr>img_url = ''http://x/'', img_out_dir = ''out'', img_mode = m, img_item = ''cat''\<rparr>"

definition ex_ticker :: "string \<Rightarrow> ticker_self" where
  "ex_ticker m = \<lparr>tk_base_url = ''http://t/'', tk_out_dir = ''tickerdata'', tk_mode = m\<rparr>"

definition ex_ticker_config :: ticker_config where
  "ex_ticker_config = \<lparr>tickers = [''AAA''], base_url = ''http://t/''\<rparr>"

text \<open>A pool of two ticker workers after the queue \<open>AAA, done, done\<close> has been drained.\<close>

definition ex_final :: "string pool" where
  "ex_final = \<lparr>pending = [], task_queue = [],
               intakes = [\<lparr>batch = [''AAA''], running = False, got = [''AAA'', ''done'']\<rparr>,
                          \<lparr>batch = [], running = False, got = [''done'']\<rparr>]\<rparr>"

section \<open>Notions used in the statements\<close>

fun is_put :: "event \<Rightarrow> bool" where
  "is_put (EPut r) = True"
| "is_put ev = False"

text \<open>A run of events without a put on the result queue.\<close>

definition quiet :: "event list \<Rightarrow> bool" where
  "quiet io = (list_all (\<lambda>ev. \<not> is_put ev) io)"

text \<open>
  What a coroutine does when it runs to its end: the value it returns and the events it
  adds, in its own order. Both depend on the endpoints only.
\<close>

primrec outcome :: "env \<Rightarrow> 'r coro \<Rightarrow> 'r" where
  "outcome e (Return r) = r"
| "outcome e (AwaitGet u k) = outcome e (k (net e u))"
| "outcome e (AwaitIO op c) = outcome e c"

fun op_event :: "io_op \<Rightarrow> event" where
  "op_event (OpenTrunc p) = EOpen p"
| "op_event (OpenAppend p) = EOpen p"
| "op_event (Write p d) = EWrite p"

primrec trace :: "env \<Rightarrow> 'r coro \<Rightarrow> event list" where
  "trace e (Return r) = []"
| "trace e (AwaitGet u k) = EGet u # trace e (k (net e u))"
| "trace e (AwaitIO op c) = op_event op # trace e c"

text \<open>The status string a ticker worker reports for one ticker, in each mode.\<close>

definition ticker_record_sync :: "ticker_self \<Rightarrow> env \<Rightarrow> string \<Rightarrow> string" where
  "ticker_record_sync self e t =
     t @ (if status (net e (tk_base_url self @ t)) \<noteq> 200 then '' fetch failed'' else '' fetch succeeded'')"

definition ticker_record_async :: "ticker_self \<Rightarrow> env \<Rightarrow> string \<Rightarrow> string" where
  "ticker_record_async self e t =
     t @ (if status (net e (tk_base_url self @ t)) \<noteq> 200 \<or> body (net e (tk_base_url self @ t)) = []
          then '' fetch failed'' else '' fetch succeeded'')"

text \<open>
  The invariant of one intake loop, and of the pool: at least as many sentinels are still
  to come as there are workers in their intake loops.
\<close>

definition intake_ok :: "'a \<Rightarrow> 'a worker \<Rightarrow> bool" where
  "intake_ok d wk = (d \<notin> set (batch wk) \<and> got wk = batch wk @ (if running wk then [] else [d]))"

definition pool_inv :: "'a \<Rightarrow> nat \<Rightarrow> 'a pool \<Rightarrow> bool" where
  "pool_inv d n s =
     (length (intakes s) = n \<and> list_all (intake_ok d) (intakes s) \<and>
      length (filter running (intakes s)) \<le> count_list (task_queue s @ pending s) d)"

section \<open>Basic facts\<close>

lemma split_on_not_Nil: "split_on c s \<noteq> []"
  by (induction s) (auto split: list.splits)

lemma intake_stops:
  "d \<notin> set xs \<Longrightarrow> running wk \<Longrightarrow>
   intake d (xs @ d # ys) wk =
     Some (wk\<lparr>batch := batch wk @ xs, running := False, got := got wk @ xs @ [d]\<rparr>, ys)"
proof (induction xs arbitrary: wk)
  case Nil
  then show ?case by (simp add: intake_step_def)
next
  case (Cons x xs)
  then show ?case by (auto simp: intake_step_def)
qed

lemma put_all_result_queue: "result_queue (put_all rs w) = result_queue w @ rs"
  by (induction rs arbitrary: w) (simp_all add: result_put_def)

lemma put_all_events: "events (put_all rs w) = events w @ map EPut rs"
  by (induction rs arbitrary: w) (simp_all add: result_put_def)

lemma put_all_files: "files (put_all rs w) = files w"
  by (induction rs arbitrary: w) (simp_all add: result_put_def)

lemma str_in_occurs: "str_in s t \<longleftrightarrow> (\<exists>ps ss. t = ps @ s @ ss)"
  by (simp add: str_in_def sublist_def)

lemma str_in_append: "str_in s t \<Longrightarrow> str_in s (p @ t)"
  unfolding str_in_def sublist_def by (metis append.assoc)

lemma count_failed_eq:
  "count_failed n rs =
     (if n \<le> length rs then Some (length (filter (str_in ''failed'') (take n rs))) else None)"
proof (induction n rs rule: count_failed.induct)
  case (1 rs)
  show ?case by simp
next
  case (2 n)
  show ?case by simp
next
  case (3 n r rs)
  then show ?case by simp
qed

lemma enqueue_tickers_take:
  "enqueue_tickers fc idx xs = take (nat (fc - int idx)) xs"
proof (induction xs arbitrary: idx)
  case Nil
  show ?case by simp
next
  case (Cons x xs)
  show ?case
  proof (cases "int idx \<ge> fc")
    case True
    then show ?thesis by simp
  next
    case False
    then have "nat (fc - int idx) = Suc (nat (fc - int (Suc idx)))" by simp
    with False Cons.IH[of "Suc idx"] show ?thesis by simp
  qed
qed

lemma count_failed_one: "count_failed 1 [r] = Some (if str_in ''failed'' r then 1 else 0)"
  by (simp add: count_failed_eq)


subsection \<open>Coroutines\<close>

lemma quiet_Nil: "quiet []"
  by (simp add: quiet_def)

lemma quiet_append: "quiet (xs @ ys) \<longleftrightarrow> quiet xs \<and> quiet ys"
  by (simp add: quiet_def)

lemma perform_events: "events (perform op w) = events w @ [op_event op]"
  by (cases op) (simp_all add: open_trunc_def open_append_def file_write_def)

lemma perform_result_queue: "result_queue (perform op w) = result_queue w"
  by (cases op) (simp_all add: open_trunc_def open_append_def file_write_def)

lemma quiet_op_event: "quiet [op_event op]"
  by (cases op) (simp_all add: quiet_def)

lemma quiet_trace: "quiet (trace e c)"
proof (induction c)
  case (Return r)
  show ?case by (simp add: quiet_def)
next
  case (AwaitGet u k)
  then have "quiet (trace e (k (net e u)))" by simp
  then show ?case by (simp add: quiet_def)
next
  case (AwaitIO op c)
  then show ?case using quiet_op_event[of op] by (simp add: quiet_def)
qed

lemma run_co_outcome: "fst (run_co e c w) = outcome e c"
proof (induction c arbitrary: w)
  case (Return r)
  show ?case by simp
next
  case (AwaitGet u k)
  have "fst (run_co e (k (net e u)) (w\<lparr>events := events w @ [EGet u]\<rparr>)) = outcome e (k (net e u))"
    by (rule AwaitGet.IH) simp
  then show ?case by (simp add: http_get_def)
next
  case (AwaitIO op c)
  then show ?case by simp
qed

lemma run_co_events: "events (snd (run_co e c w)) = events w @ trace e c"
proof (induction c arbitrary: w)
  case (Return r)
  show ?case by simp
next
  case (AwaitGet u k)
  have "events (snd (run_co e (k (net e u)) (w\<lparr>events := events w @ [EGet u]\<rparr>)))
          = events (w\<lparr>events := events w @ [EGet u]\<rparr>) @ trace e (k (net e u))"
    by (rule AwaitGet.IH) simp
  then show ?case by (simp add: http_get_def)
next
  case (AwaitIO op c)
  then show ?case by (simp add: perform_events)
qed

lemma run_co_result_queue: "result_queue (snd (run_co e c w)) = result_queue w"
proof (induction c arbitrary: w)
  case (Return r)
  show ?case by simp
next
  case (AwaitGet u k)
  have "result_queue (snd (run_co e (k (net e u)) (w\<lparr>events := events w @ [EGet u]\<rparr>)))
          = result_queue (w\<lparr>events := events w @ [EGet u]\<rparr>)"
    by (rule AwaitGet.IH) simp
  then show ?case by (simp add: http_get_def)
next
  case (AwaitIO op c)
  then show ?case by (simp add: perform_result_queue)
qed

lemma resume_run_co: "run_co e (fst (resume e c w)) (snd (resume e c w)) = run_co e c w"
  by (cases c) (simp_all add: http_get_def)

lemma resume_outcome: "outcome e (fst (resume e c w)) = outcome e c"
  by (cases c) (simp_all add: http_get_def)

lemma resume_result_queue: "result_queue (snd (resume e c w)) = result_queue w"
  by (cases c) (simp_all add: http_get_def perform_result_queue)

lemma resume_events:
  "\<exists>io. events (snd (resume e c w)) = events w @ io \<and> quiet io \<and>
        trace e c = io @ trace e (fst (resume e c w))"
proof (cases c)
  case (Return r)
  then show ?thesis by (simp add: quiet_def)
next
  case (AwaitGet u k)
  then show ?thesis by (simp add: http_get_def quiet_def)
next
  case (AwaitIO op c')
  then show ?thesis using quiet_op_event[of op] by (simp add: perform_events)
qed


subsection \<open>Gathering under any schedule\<close>

text \<open>
  Whatever the schedule, a gathering leaves the result queue alone and adds events that are
  no puts; when it returns, every coroutine has run to its end and the results are the
  values of the coroutines in their order; when it raises, one of the coroutines raises
  that exception.
\<close>

lemma run_sched_inv:
  "run_sched e sch cs w raised = (cs', w', raised') \<Longrightarrow>
   length cs' = length cs \<and> result_queue w' = result_queue w \<and>
   map (outcome e) cs' = map (outcome e) cs \<and>
   (\<exists>io. events w' = events w @ io \<and> quiet io \<and>
         (\<forall>i<length cs. set (trace e (cs ! i)) \<subseteq> set io \<union> set (trace e (cs' ! i)))) \<and>
   (\<forall>err. raised' = Some err \<longrightarrow> raised = Some err \<or> Inl err \<in> set (map (outcome e) cs))"
proof (induction sch arbitrary: cs w raised)
  case Nil
  then show ?case by (auto simp: quiet_def)
next
  case (Cons i sch)
  show ?case
  proof (cases "i < length cs")
    case False
    with Cons.prems have "run_sched e sch cs w raised = (cs', w', raised')" by simp
    then show ?thesis by (rule Cons.IH)
  next
    case True
    define c1 where "c1 = fst (resume e (cs ! i) w)"
    define w1 where "w1 = snd (resume e (cs ! i) w)"
    define r1 where "r1 = (case raised of Some err \<Rightarrow> Some err
        | None \<Rightarrow> (case c1 of Return (Inl err) \<Rightarrow> Some err | _ \<Rightarrow> None))"
    have res: "resume e (cs ! i) w = (c1, w1)" by (simp add: c1_def w1_def)
    have run: "run_sched e sch (cs[i := c1]) w1 r1 = (cs', w', raised')"
      using Cons.prems True res by (simp add: r1_def)
    note ih = Cons.IH[OF run]
    have o1: "outcome e c1 = outcome e (cs ! i)" unfolding c1_def by (rule resume_outcome)
    have q1: "result_queue w1 = result_queue w" unfolding w1_def by (rule resume_result_queue)
    obtain io1 where io1: "events w1 = events w @ io1" "quiet io1"
        "trace e (cs ! i) = io1 @ trace e c1"
      using resume_events[of e "cs ! i" w] unfolding c1_def w1_def by blast
    have outs: "map (outcome e) (cs[i := c1]) = map (outcome e) cs"
      using o1 True by (simp add: map_update list_update_same_conv)
    from ih obtain io2 where io2: "events w' = events w1 @ io2" "quiet io2"
        "\<forall>j<length (cs[i := c1]). set (trace e (cs[i := c1] ! j)) \<subseteq> set io2 \<union> set (trace e (cs' ! j))"
      by blast
    have ev: "events w' = events w @ (io1 @ io2)" using io1 io2 by simp
    have qq: "quiet (io1 @ io2)" using io1 io2 by (simp add: quiet_append)
    have tr: "set (trace e (cs ! j)) \<subseteq> set (io1 @ io2) \<union> set (trace e (cs' ! j))" if j: "j < length cs" for j
    proof (cases "j = i")
      case True
      have "i < length (cs[i := c1])" and "cs[i := c1] ! i = c1" using j True by simp_all
      then have "set (trace e c1) \<subseteq> set io2 \<union> set (trace e (cs' ! i))"
        using io2(3) by metis
      then show ?thesis using io1(3) True by auto
    next
      case False
      have "j < length (cs[i := c1])" and "cs[i := c1] ! j = cs ! j" using j False by simp_all
      then have "set (trace e (cs ! j)) \<subseteq> set io2 \<union> set (trace e (cs' ! j))"
        using io2(3) by metis
      then show ?thesis by auto
    qed
    have rs: "raised = Some err \<or> Inl err \<in> set (map (outcome e) cs)" if r: "raised' = Some err" for err
    proof -
      from ih r have "r1 = Some err \<or> Inl err \<in> set (map (outcome e) (cs[i := c1]))" by blast
      then show ?thesis
      proof
        assume a: "r1 = Some err"
        show ?thesis
        proof (cases raised)
          case (Some x)
          then show ?thesis using a by (simp add: r1_def)
        next
          case None
          then have "c1 = Return (Inl err)"
            using a by (simp add: r1_def split: coro.splits sum.splits)
          then have "outcome e (cs ! i) = Inl err" using o1 by simp
          then show ?thesis using True by (metis length_map nth_map nth_mem)
        qed
      next
        assume "Inl err \<in> set (map (outcome e) (cs[i := c1]))"
        then show ?thesis using outs by simp
      qed
    qed
    show ?thesis
      using ih q1 outs ev qq tr rs by (intro conjI) (auto simp: )
  qed
qed

lemma finish_inv:
  "finish e cs w = (res, w') \<Longrightarrow>
   result_queue w' = result_queue w \<and>
   (\<exists>io. events w' = events w @ io \<and> quiet io \<and>
         (\<forall>rs. res = Inr rs \<longrightarrow> (\<forall>c\<in>set cs. set (trace e c) \<subseteq> set io))) \<and>
   (\<forall>rs. res = Inr rs \<longrightarrow> map Inr rs = map (outcome e) cs) \<and>
   (\<forall>err. res = Inl err \<longrightarrow> Inl err \<in> set (map (outcome e) cs))"
proof (induction cs arbitrary: w res w')
  case Nil
  then show ?case by (auto simp: quiet_def)
next
  case (Cons c cs)
  define w1 where "w1 = snd (run_co e c w)"
  have rc: "run_co e c w = (outcome e c, w1)"
    using run_co_outcome[of e c w] by (simp add: w1_def prod_eq_iff)
  have q1: "result_queue w1 = result_queue w" unfolding w1_def by (rule run_co_result_queue)
  have e1: "events w1 = events w @ trace e c" unfolding w1_def by (rule run_co_events)
  show ?case
  proof (cases "outcome e c")
    case (Inl err)
    then have "res = Inl err" "w' = w1" using Cons.prems rc by simp_all
    then show ?thesis using Inl q1 e1 quiet_trace[of e c] by auto
  next
    case (Inr r)
    obtain res2 w2 where f2: "finish e cs w1 = (res2, w2)" by (cases "finish e cs w1")
    note ih = Cons.IH[OF f2]
    from ih obtain io2 where io2: "events w2 = events w1 @ io2" "quiet io2"
        "\<forall>rs. res2 = Inr rs \<longrightarrow> (\<forall>c\<in>set cs. set (trace e c) \<subseteq> set io2)"
      by blast
    have ev: "events w2 = events w @ (trace e c @ io2)" using e1 io2 by simp
    have qq: "quiet (trace e c @ io2)" using quiet_trace[of e c] io2 by (simp add: quiet_append)
    show ?thesis
    proof (cases res2)
      case (Inl err)
      then have "res = Inl err" "w' = w2" using Cons.prems rc Inr f2 by simp_all
      then show ?thesis using ih Inl q1 ev qq by auto
    next
      case (Inr rs)
      then have r: "res = Inr (r # rs)" "w' = w2" using Cons.prems rc \<open>outcome e c = Inr r\<close> f2 by simp_all
      have sub: "\<forall>c'\<in>set (c # cs). set (trace e c') \<subseteq> set (trace e c @ io2)"
        using io2(3) Inr by auto
      have "map Inr rs = map (outcome e) cs" using ih Inr by blast
      then have m: "map Inr (r # rs) = map (outcome e) (c # cs)" using \<open>outcome e c = Inr r\<close> by simp
      have qw: "result_queue w' = result_queue w" using ih q1 r by simp
      have "\<exists>io. events w' = events w @ io \<and> quiet io \<and>
         (\<forall>rs. res = Inr rs \<longrightarrow> (\<forall>c\<in>set (c # cs). set (trace e c) \<subseteq> set io))"
        using ev qq sub r by blast
      then show ?thesis using qw m r by auto
    qed
  qed
qed

lemma gather_inv:
  assumes "gather e sch cs w = (res, w')"
  shows "result_queue w' = result_queue w \<and>
   (\<exists>io. events w' = events w @ io \<and> quiet io \<and>
         (\<forall>rs. res = Inr rs \<longrightarrow> (\<forall>c\<in>set cs. set (trace e c) \<subseteq> set io))) \<and>
   (\<forall>rs. res = Inr rs \<longrightarrow> map Inr rs = map (outcome e) cs) \<and>
   (\<forall>err. res = Inl err \<longrightarrow> Inl err \<in> set (map (outcome e) cs))"
proof -
  obtain cs1 w1 raised where rs: "run_sched e sch cs w None = (cs1, w1, raised)"
    by (cases "run_sched e sch cs w None") auto
  note si = run_sched_inv[OF rs]
  from si obtain io1 where io1: "events w1 = events w @ io1" "quiet io1"
      "\<forall>i<length cs. set (trace e (cs ! i)) \<subseteq> set io1 \<union> set (trace e (cs1 ! i))"
    by blast
  have len: "length cs1 = length cs" and q1: "result_queue w1 = result_queue w"
    and outs: "map (outcome e) cs1 = map (outcome e) cs"
    using si by auto
  show ?thesis
  proof (cases raised)
    case (Some err)
    then have r: "res = Inl err" "w' = w1" using assms rs by (simp_all add: gather_def)
    have "Inl err \<in> set (map (outcome e) cs)" using si Some by blast
    then show ?thesis using r q1 io1 by auto
  next
    case None
    then have f: "finish e cs1 w1 = (res, w')" using assms rs by (simp add: gather_def)
    note fi = finish_inv[OF f]
    from fi obtain io2 where io2: "events w' = events w1 @ io2" "quiet io2"
        "\<forall>rs. res = Inr rs \<longrightarrow> (\<forall>c\<in>set cs1. set (trace e c) \<subseteq> set io2)"
      by blast
    have ev: "events w' = events w @ (io1 @ io2)" using io1 io2 by simp
    have qq: "quiet (io1 @ io2)" using io1 io2 by (simp add: quiet_append)
    have sub: "\<forall>c\<in>set cs. set (trace e c) \<subseteq> set (io1 @ io2)" if "res = Inr rs" for rs
    proof
      fix c assume "c \<in> set cs"
      then obtain i where i: "i < length cs" "cs ! i = c" by (auto simp: in_set_conv_nth)
      have a: "set (trace e c) \<subseteq> set io1 \<union> set (trace e (cs1 ! i))" using io1(3) i by auto
      have "cs1 ! i \<in> set cs1" using i len by simp
      then have "set (trace e (cs1 ! i)) \<subseteq> set io2" using io2(3) that by blast
      then show "set (trace e c) \<subseteq> set (io1 @ io2)" using a by auto
    qed
    have ex: "\<exists>io. events w' = events w @ io \<and> quiet io \<and>
         (\<forall>rs. res = Inr rs \<longrightarrow> (\<forall>c\<in>set cs. set (trace e c) \<subseteq> set io))"
      using ev qq sub by blast
    show ?thesis using fi q1 outs ex by auto
  qed
qed


text \<open>A gathering of at most one coroutine does not depend on the schedule.\<close>

lemma run_sched_single:
  "run_sched e sch [c] w raised = (cs', w', raised') \<Longrightarrow>
   \<exists>c'. cs' = [c'] \<and> run_co e c' w' = run_co e c w \<and>
        (\<forall>r. c = Return r \<longrightarrow> c' = Return r \<and> w' = w) \<and>
        (\<forall>err. raised' = Some err \<longrightarrow> raised = Some err \<or> c' = Return (Inl err))"
proof (induction sch arbitrary: c w raised)
  case Nil
  then show ?case by auto
next
  case (Cons i sch)
  show ?case
  proof (cases "i < length [c]")
    case False
    with Cons.prems have "run_sched e sch [c] w raised = (cs', w', raised')" by simp
    then show ?thesis by (rule Cons.IH)
  next
    case True
    then have i0: "i = 0" by simp
    define c1 where "c1 = fst (resume e c w)"
    define w1 where "w1 = snd (resume e c w)"
    define r1 where "r1 = (case raised of Some err \<Rightarrow> Some err
        | None \<Rightarrow> (case c1 of Return (Inl err) \<Rightarrow> Some err | _ \<Rightarrow> None))"
    have res: "resume e c w = (c1, w1)" by (simp add: c1_def w1_def)
    have run: "run_sched e sch [c1] w1 r1 = (cs', w', raised')"
      using Cons.prems i0 res by (simp add: r1_def)
    from Cons.IH[OF run] obtain c' where c': "cs' = [c']" "run_co e c' w' = run_co e c1 w1"
        "\<forall>r. c1 = Return r \<longrightarrow> c' = Return r \<and> w' = w1"
        "\<forall>err. raised' = Some err \<longrightarrow> r1 = Some err \<or> c' = Return (Inl err)"
      by blast
    have rc: "run_co e c' w' = run_co e c w"
      using c'(2) resume_run_co[of e c w] by (simp add: c1_def w1_def)
    have ret: "c' = Return r \<and> w' = w" if "c = Return r" for r
      using that c'(3) by (simp add: c1_def w1_def)
    have rs: "raised = Some err \<or> c' = Return (Inl err)" if r: "raised' = Some err" for err
    proof -
      from c'(4) r have "r1 = Some err \<or> c' = Return (Inl err)" by blast
      then show ?thesis
      proof
        assume a: "r1 = Some err"
        show ?thesis
        proof (cases raised)
          case (Some x)
          then show ?thesis using a by (simp add: r1_def)
        next
          case None
          then have "c1 = Return (Inl err)"
            using a by (simp add: r1_def split: coro.splits sum.splits)
          then show ?thesis using c'(3) by simp
        qed
      qed simp
    qed
    show ?thesis using c'(1) rc ret rs by blast
  qed
qed

lemma run_sched_empty: "run_sched e sch [] w raised = ([], w, raised)"
  by (induction sch) simp_all

lemma gather_single: "length cs \<le> 1 \<Longrightarrow> gather e sch cs w = gather e [] cs w"
proof (cases cs)
  case Nil
  then show ?thesis by (simp add: gather_def run_sched_empty)
next
  case (Cons c rest)
  assume "length cs \<le> 1"
  then have cs: "cs = [c]" using Cons by simp
  obtain cs1 w1 raised where rs: "run_sched e sch [c] w None = (cs1, w1, raised)"
    by (cases "run_sched e sch [c] w None") auto
  from run_sched_single[OF rs] obtain c' where c': "cs1 = [c']" "run_co e c' w1 = run_co e c w"
      "\<forall>err. raised = Some err \<longrightarrow> c' = Return (Inl err)"
    by auto
  show ?thesis
  proof (cases raised)
    case (Some err)
    then have "c' = Return (Inl err)" using c'(3) by simp
    then have "run_co e c w = (Inl err, w1)" using c'(2) by simp
    then show ?thesis using cs rs Some by (simp add: gather_def)
  next
    case None
    then show ?thesis using cs rs c' by (simp add: gather_def)
  qed
qed


subsection \<open>The runs of the workers up to the first sentinel\<close>


lemma Image_run_first_done:
  "PStr ''done'' \<notin> set ps \<Longrightarrow>
   Image_run self cfg e sch (ps @ PStr ''done'' # behind) w =
     Some (if img_mode self = ''async'' then Image_asyncio_sessions self cfg e sch ps w
           else (Inr (), Image_sync_process self e ps w), behind)"
  by (simp add: Image_run_def intake_stops new_worker_def)


subsection \<open>The ticker worker reports once per ticker\<close>

lemma Ticker_sync_records:
  "result_queue (Ticker_sync_process self e ts w) = result_queue w @ map (ticker_record_sync self e) ts"
  by (induction ts arbitrary: w)
     (simp_all add: http_get_def result_put_def file_write_def open_trunc_def ticker_record_sync_def Let_def)

lemma Ticker_aio_outcome:
  "outcome e (Ticker_aio_process self t) = Inr (ticker_record_async self e t)"
  by (simp add: Ticker_aio_process_def Ticker_get_def ticker_record_async_def Let_def)

lemma Ticker_aio_trace:
  "trace e (Ticker_aio_process self t) =
     EGet (tk_base_url self @ t) #
     (if status (net e (tk_base_url self @ t)) \<noteq> 200 \<or> body (net e (tk_base_url self @ t)) = []
      then []
      else [EOpen (tk_out_dir self @ ''/'' @ t @ ''.csv''), EWrite (tk_out_dir self @ ''/'' @ t @ ''.csv'')])"
  by (simp add: Ticker_aio_process_def Ticker_get_def Let_def)

lemma map_Inr_eq: "map Inr rs = map Inr ys \<Longrightarrow> rs = ys"
  by (simp add: inj_map_eq_map)

lemma Ticker_gather:
  assumes "gather e sch (map (Ticker_aio_process self) ts) w = (res, w')"
  shows "res = Inr (map (ticker_record_async self e) ts)"
proof -
  let ?cs = "map (Ticker_aio_process self) ts"
  note gi = gather_inv[OF assms]
  have outs: "map (outcome e) ?cs = map Inr (map (ticker_record_async self e) ts)"
    by (simp add: Ticker_aio_outcome)
  show ?thesis
  proof (cases res)
    case (Inl err)
    then have "Inl err \<in> set (map (outcome e) ?cs)" using gi by blast
    then show ?thesis unfolding outs by auto
  next
    case (Inr rs)
    then have "map Inr rs = map (outcome e) ?cs" using gi by blast
    then have "rs = map (ticker_record_async self e) ts" unfolding outs by (rule map_Inr_eq)
    then show ?thesis using Inr by simp
  qed
qed

lemma Ticker_async_records:
  "fst (Ticker_asyncio_sessions self e sch ts w) = Inr () \<and>
   result_queue (snd (Ticker_asyncio_sessions self e sch ts w))
     = result_queue w @ map (ticker_record_async self e) ts"
proof -
  obtain res w1 where gw: "gather e sch (map (Ticker_aio_process self) ts) w = (res, w1)"
    by (cases "gather e sch (map (Ticker_aio_process self) ts) w")
  have r: "res = Inr (map (ticker_record_async self e) ts)" using gw by (rule Ticker_gather)
  have q: "result_queue w1 = result_queue w" using gather_inv[OF gw] by blast
  show ?thesis using gw r q by (simp add: Ticker_asyncio_sessions_def put_all_result_queue)
qed

lemma Ticker_one_record_per_task:
  "length (result_queue (Ticker_sync_process self e ts w)) = length (result_queue w) + length ts"
  "length (result_queue (snd (Ticker_asyncio_sessions self e sch ts w))) = length (result_queue w) + length ts"
  by (simp_all add: Ticker_sync_records Ticker_async_records)

lemma Ticker_aio_not_200:
  "status (net e (tk_base_url self @ t)) \<noteq> 200 \<Longrightarrow>
   outcome e (Ticker_aio_process self t) = Inr (t @ '' fetch failed'') \<and>
   trace e (Ticker_aio_process self t) = [EGet (tk_base_url self @ t)]"
  by (simp add: Ticker_aio_process_def Ticker_get_def Let_def)

lemma Ticker_sync_not_200:
  "status (net e (tk_base_url self @ t)) \<noteq> 200 \<Longrightarrow>
   result_queue (Ticker_sync_process self e [t] w) = result_queue w @ [t @ '' fetch failed''] \<and>
   files (Ticker_sync_process self e [t] w) = files w"
  by (simp add: http_get_def result_put_def Let_def)

lemma Ticker_async_single:
  "length ts \<le> 1 \<Longrightarrow> Ticker_asyncio_sessions self e sch ts w = Ticker_asyncio_sessions self e [] ts w"
  using gather_single[of "map (Ticker_aio_process self) ts" e sch w]
  by (simp add: Ticker_asyncio_sessions_def)


subsection \<open>The image worker\<close>

lemma Image_aio_outcome:
  "outcome e (Image_aio_process cfg u ct) = Inr r \<Longrightarrow> r = ''Fetch succeeded: '' @ u"
  by (auto simp: Image_aio_process_def Image_get_def Let_def split: if_splits pydata.splits)

lemma Image_aio_trace: "EGet u \<in> set (trace e (Image_aio_process cfg u ct))"
  by (simp add: Image_aio_process_def Image_get_def Let_def)

lemma Image_collect_events:
  "\<exists>io. events (snd (Image_collect self cfg e pages tasks w)) = events w @ io \<and> quiet io \<and>
        result_queue (snd (Image_collect self cfg e pages tasks w)) = result_queue w"
proof (induction pages arbitrary: tasks w)
  case Nil
  show ?case by (simp add: quiet_def)
next
  case (Cons page pages)
  let ?c = "Image_get (URL cfg @ ''p'' @ py_str page @ ''/'' @ img_item self @ ''.html'') ''text''"
  obtain r w1 where gw: "run_co e ?c w = (r, w1)" by (cases "run_co e ?c w")
  have w1: "events w1 = events w @ trace e ?c" "result_queue w1 = result_queue w"
    using run_co_events[of e ?c w] run_co_result_queue[of e ?c w] gw by simp_all
  obtain io where io: "events (snd (Image_collect self cfg e pages
        (tasks @ filter (str_in ''images.stockfreeimages.com'') (xpath_img_src e (payload r))) w1)) = events w1 @ io"
      "quiet io"
      "result_queue (snd (Image_collect self cfg e pages
        (tasks @ filter (str_in ''images.stockfreeimages.com'') (xpath_img_src e (payload r))) w1)) = result_queue w1"
    using Cons.IH by blast
  have q: "quiet (trace e ?c @ io)" using quiet_trace[of e ?c] io(2) by (simp add: quiet_append)
  show ?case
    using gw w1 io q by (intro exI[of _ "trace e ?c @ io"]) simp
qed

lemma Image_async_records:
  assumes "map (outcome e) (map (\<lambda>u. Image_aio_process cfg u ''image'')
             (fst (Image_collect self cfg e pages [] w))) = map Inr rs"
  shows "fst (Image_asyncio_sessions self cfg e sch pages w) = Inr () \<and>
         result_queue (snd (Image_asyncio_sessions self cfg e sch pages w)) = result_queue w @ rs"
proof -
  obtain tasks w1 where cw: "Image_collect self cfg e pages [] w = (tasks, w1)"
    by (cases "Image_collect self cfg e pages [] w")
  let ?cs = "map (\<lambda>u. Image_aio_process cfg u ''image'') tasks"
  have outs: "map (outcome e) ?cs = map Inr rs" using assms cw by simp
  have q1: "result_queue w1 = result_queue w"
    using Image_collect_events[of self cfg e pages "[]" w] cw by auto
  obtain res w2 where gw: "gather e sch ?cs w1 = (res, w2)" by (cases "gather e sch ?cs w1")
  note gi = gather_inv[OF gw]
  have q2: "result_queue w2 = result_queue w1" using gi by blast
  have r: "res = Inr rs"
  proof (cases res)
    case (Inl err)
    then have "Inl err \<in> set (map (outcome e) ?cs)" using gi by blast
    then show ?thesis unfolding outs by auto
  next
    case (Inr ys)
    then have "map Inr ys = map (outcome e) ?cs" using gi by blast
    then have "ys = rs" unfolding outs by (rule map_Inr_eq)
    then show ?thesis using Inr by simp
  qed
  show ?thesis using cw gw r q1 q2 by (simp add: Image_asyncio_sessions_def put_all_result_queue)
qed

lemma Image_async_single:
  "length (fst (Image_collect self cfg e pages [] w)) \<le> 1 \<Longrightarrow>
   Image_asyncio_sessions self cfg e sch pages w = Image_asyncio_sessions self cfg e [] pages w"
proof -
  assume a: "length (fst (Image_collect self cfg e pages [] w)) \<le> 1"
  obtain tasks w1 where cw: "Image_collect self cfg e pages [] w = (tasks, w1)"
    by (cases "Image_collect self cfg e pages [] w")
  have "length (map (\<lambda>u. Image_aio_process cfg u ''image'') tasks) \<le> 1" using a cw by simp
  then have "gather e sch (map (\<lambda>u. Image_aio_process cfg u ''image'') tasks) w1
           = gather e [] (map (\<lambda>u. Image_aio_process cfg u ''image'') tasks) w1"
    by (rule gather_single)
  then show ?thesis using cw by (simp add: Image_asyncio_sessions_def)
qed


subsection \<open>The coordinators\<close>

text \<open>
  The tally of the ticker coordinator, and the tally and the clamp of the image coordinator
  for a namespace that had the attributes it reads.
\<close>

lemma Ticker_main_tally:
  "\<exists>co. Ticker_main (parse_clargs m c p t out) e tc rs = Inr co
        \<and> reads co = nat c \<and> fail_count co = count_failed (nat c) rs"
  by (simp add: Ticker_main_def parse_clargs_def getattr_int_def getattr_str_def bind_err_def Let_def)

lemma Image_main_tally:
  "Image_main args e cfg rs = Inr co \<Longrightarrow> fail_count co = count_failed (reads co) rs"
  by (auto simp: Image_main_def bind_err_def Let_def split: sum.splits)

lemma Image_main_clamp:
  "args ''parallel'' = Some (PInt p) \<Longrightarrow> args ''mode'' = Some (PStr m) \<Longrightarrow>
   \<exists>co. Image_main args e cfg rs = Inr co \<and>
        int (length (workers co)) = max 0 (max p (cpu_count e))"
  by (simp add: Image_main_def getattr_int_def getattr_str_def bind_err_def Let_def)


subsection \<open>The pool of workers\<close>

lemma intake_step_ok: "intake_ok d wk \<Longrightarrow> running wk \<Longrightarrow> intake_ok d (intake_step d t wk)"
  by (auto simp: intake_ok_def intake_step_def)

lemma filter_update_drop:
  "i < length ws \<Longrightarrow> P (ws ! i) \<Longrightarrow> \<not> P w' \<Longrightarrow>
   Suc (length (filter P (ws[i := w']))) = length (filter P ws)"
proof (induction ws arbitrary: i)
  case Nil
  then show ?case by simp
next
  case (Cons a ws)
  then show ?case by (cases i) auto
qed

lemma filter_update_keep:
  "i < length ws \<Longrightarrow> P (ws ! i) \<Longrightarrow> P w' \<Longrightarrow>
   length (filter P (ws[i := w'])) = length (filter P ws)"
proof (induction ws arbitrary: i)
  case Nil
  then show ?case by simp
next
  case (Cons a ws)
  then show ?case by (cases i) auto
qed

lemma list_all_update_ok: "list_all P ws \<Longrightarrow> P w' \<Longrightarrow> list_all P (ws[i := w'])"
  using set_update_subset_insert[of ws i w'] by (auto simp: list_all_iff)

lemma count_list_replicate_same: "count_list (replicate n d) d = n"
  by (induction n) simp_all

lemma pool_step_inv:
  assumes "pool_step d s s'" and "pool_inv d n s"
  shows "pool_inv d n s'"
  using assms
proof (induction rule: pool_step.induct)
  case (put s t p)
  then show ?case by (simp add: pool_inv_def)
next
  case (get s t q i)
  let ?wk = "intakes s ! i"
  have ok: "intake_ok d ?wk" using get by (simp add: pool_inv_def list_all_length)
  have ok': "intake_ok d (intake_step d t ?wk)" using ok get(3) by (rule intake_step_ok)
  have all: "list_all (intake_ok d) ((intakes s)[i := intake_step d t ?wk])"
    using get(4) ok' by (simp add: pool_inv_def list_all_update_ok)
  have cnt: "length (filter running ((intakes s)[i := intake_step d t ?wk]))
               \<le> count_list (q @ pending s) d"
  proof (cases "t = d")
    case True
    then have "\<not> running (intake_step d t ?wk)" by (simp add: intake_step_def)
    then have "Suc (length (filter running ((intakes s)[i := intake_step d t ?wk])))
                 = length (filter running (intakes s))"
      using get(2,3) by (simp add: filter_update_drop)
    then show ?thesis using get(1,4) True by (simp add: pool_inv_def)
  next
    case False
    then have "running (intake_step d t ?wk)" using get(3) by (simp add: intake_step_def)
    then have "length (filter running ((intakes s)[i := intake_step d t ?wk]))
                 = length (filter running (intakes s))"
      using get(2,3) by (simp add: filter_update_keep)
    then show ?thesis using get(1,4) False by (simp add: pool_inv_def)
  qed
  show ?case using get(4) all cnt by (simp add: pool_inv_def)
qed

lemma pool_reach_inv:
  assumes "(pool_step d)\<^sup>*\<^sup>* (pool_init (tasks @ replicate n d) n) s"
  shows "pool_inv d n s"
  using assms
proof (induction rule: rtranclp_induct)
  case base
  show ?case
    by (simp add: pool_inv_def pool_init_def new_worker_def intake_ok_def list_all_iff
          count_list_replicate_same)
next
  case (step y z)
  from step(2) step(3) show ?case by (rule pool_step_inv)
qed

lemma pool_step_measure: "pool_step d s s' \<Longrightarrow> pool_measure s' < pool_measure s"
  by (induction rule: pool_step.induct) (simp_all add: pool_measure_def)

lemma pool_stuck:
  assumes stuck: "\<forall>s'. \<not> pool_step d s s'" and inv: "pool_inv d n s"
  shows "pending s = [] \<and> list_all (\<lambda>wk. \<not> running wk) (intakes s)"
proof -
  have p: "pending s = []"
  proof (cases "pending s")
    case Nil
    then show ?thesis .
  next
    case (Cons t p)
    then have "pool_step d s (s\<lparr>pending := p, task_queue := task_queue s @ [t]\<rparr>)"
      by (rule pool_step.put)
    with stuck show ?thesis by blast
  qed
  have norun: "\<not> running (intakes s ! i)" if i: "i < length (intakes s)" for i
  proof
    assume r: "running (intakes s ! i)"
    show False
    proof (cases "task_queue s")
      case Nil
      have "intakes s ! i \<in> set (filter running (intakes s))" using i r by simp
      then have "0 < length (filter running (intakes s))" by (cases "filter running (intakes s)") auto
      then show False using inv p Nil by (simp add: pool_inv_def)
    next
      case (Cons t q)
      then have "pool_step d s (s\<lparr>task_queue := q,
          intakes := (intakes s)[i := intake_step d t (intakes s ! i)]\<rparr>)"
        using i r by (rule pool_step.get)
      with stuck show False by blast
    qed
  qed
  show ?thesis using p norun by (simp add: list_all_length)
qed

lemma put_to: "pending s = t # p \<Longrightarrow> s' = s\<lparr>pending := p, task_queue := task_queue s @ [t]\<rparr> \<Longrightarrow> pool_step d s s'"
  by (simp add: pool_step.put)

lemma get_to: "task_queue s = t # q \<Longrightarrow> i < length (intakes s) \<Longrightarrow> running (intakes s ! i) \<Longrightarrow>
   s' = s\<lparr>task_queue := q, intakes := (intakes s)[i := intake_step d t (intakes s ! i)]\<rparr> \<Longrightarrow> pool_step d s s'"
  by (simp add: pool_step.get)

lemma ex_reach: "(pool_step ''done'')\<^sup>*\<^sup>* (pool_init ([''AAA''] @ replicate 2 ''done'') 2) ex_final"
proof -
  let ?w = "new_worker :: string worker"
  let ?s0 = "pool_init ([''AAA''] @ replicate 2 ''done'') 2"
  let ?s1 = "\<lparr>pending = [''done'', ''done''], task_queue = [''AAA''], intakes = [?w, ?w]\<rparr>"
  let ?s2 = "\<lparr>pending = [''done'', ''done''], task_queue = [], 
      intakes = [\<lparr>batch = [''AAA''], running = True, got = [''AAA'']\<rparr>, ?w]\<rparr>"
  let ?s3 = "\<lparr>pending = [''done''], task_queue = [''done''], 
      intakes = [\<lparr>batch = [''AAA''], running = True, got = [''AAA'']\<rparr>, ?w]\<rparr>"
  let ?s4 = "\<lparr>pending = [''done''], task_queue = [], 
      intakes = [\<lparr>batch = [''AAA''], running = True, got = [''AAA'']\<rparr>, \<lparr>batch = [], running = False, got = [''done'']\<rparr>]\<rparr>"
  let ?s5 = "\<lparr>pending = [], task_queue = [''done''], 
      intakes = [\<lparr>batch = [''AAA''], running = True, got = [''AAA'']\<rparr>, \<lparr>batch = [], running = False, got = [''done'']\<rparr>]\<rparr>"
  have 1: "pool_step ''done'' ?s0 ?s1"
    by (rule put_to[where t = "''AAA''" and p = "[''done'', ''done'']"]) (simp_all add: pool_init_def numeral_2_eq_2)
  have 2: "pool_step ''done'' ?s1 ?s2"
    by (rule get_to[where t = "''AAA''" and q = "[]" and i = 0]) (simp_all add: new_worker_def intake_step_def)
  have 3: "pool_step ''done'' ?s2 ?s3"
    by (rule put_to[where t = "''done''" and p = "[''done'']"]) simp_all
  have 4: "pool_step ''done'' ?s3 ?s4"
    by (rule get_to[where t = "''done''" and q = "[]" and i = 1]) (simp_all add: new_worker_def intake_step_def)
  have 5: "pool_step ''done'' ?s4 ?s5"
    by (rule put_to[where t = "''done''" and p = "[]"]) simp_all
  have 6: "pool_step ''done'' ?s5 ex_final"
    by (rule get_to[where t = "''done''" and q = "[]" and i = 0]) (simp_all add: ex_final_def intake_step_def)
  show ?thesis using 1 2 3 4 5 6 by (meson rtranclp.rtrancl_into_rtrancl rtranclp.rtrancl_refl)
qed

lemma ex_final_stuck: "\<not> pool_step ''done'' ex_final s'"
  by (auto elim!: pool_step.cases simp: ex_final_def nth_Cons split: nat.splits)


section \<open>The claims\<close>

text \<open>
  C1. One status record per task, so that the tally adds up to the number of tasks.
  The image worker reports once per image, not once per page: for the one task \<open>1\<close>
  whose listing page shows two images of the image host, it puts two records in either
  mode, under every schedule \<open>sch\<close> of the event loop; for the one task \<open>2\<close> whose only
  image is served with 404, the sequential mode puts none, and a coordinator waiting for
  one record waits for ever.
\<close>

theorem image_worker_records_per_image:
  "map_option (\<lambda>(r, q). result_queue (snd r))
     (Image_run (ex_image ''sync'') ex_config ex_env sch [PInt 1, PStr ''done''] ex_world)
     = Some [''1 fetch succeeded'', ''1 fetch succeeded'']
   \<and> map_option (\<lambda>(r, q). result_queue (snd r))
     (Image_run (ex_image ''async'') ex_config ex_env sch [PInt 1, PStr ''done''] ex_world)
     = Some [''Fetch succeeded: http://images.stockfreeimages.com/a.jpg'',
             ''Fetch succeeded: http://images.stockfreeimages.com/b.jpg'']
   \<and> map_option (\<lambda>(r, q). result_queue (snd r))
     (Image_run (ex_image ''sync'') ex_config ex_env sch [PInt 2, PStr ''done''] ex_world)
     = Some []
   \<and> count_failed 1 [] = None"
proof -
  have ms: "img_mode (ex_image ''sync'') \<noteq> ''async''" by (simp add: ex_image_def)
  have ma: "img_mode (ex_image ''async'') = ''async''" by (simp add: ex_image_def)
  have r1: "Image_run (ex_image ''sync'') ex_config ex_env sch [PInt 1, PStr ''done''] ex_world
      = Some ((Inr (), Image_sync_process (ex_image ''sync'') ex_env [PInt 1] ex_world), [])"
    using Image_run_first_done[of "[PInt 1]" "ex_image ''sync''" ex_config ex_env sch "[]" ex_world] ms
    by simp
  have v1: "result_queue (Image_sync_process (ex_image ''sync'') ex_env [PInt 1] ex_world)
      = [''1 fetch succeeded'', ''1 fetch succeeded'']"
    by code_simp
  have r2: "Image_run (ex_image ''async'') ex_config ex_env sch [PInt 1, PStr ''done''] ex_world
      = Some (Image_asyncio_sessions (ex_image ''async'') ex_config ex_env sch [PInt 1] ex_world, [])"
    using Image_run_first_done[of "[PInt 1]" "ex_image ''async''" ex_config ex_env sch "[]" ex_world] ma
    by simp
  have o2: "map (outcome ex_env) (map (\<lambda>u. Image_aio_process ex_config u ''image'')
             (fst (Image_collect (ex_image ''async'') ex_config ex_env [PInt 1] [] ex_world)))
      = map Inr [''Fetch succeeded: http://images.stockfreeimages.com/a.jpg'',
                 ''Fetch succeeded: http://images.stockfreeimages.com/b.jpg'']"
    by code_simp
  have q0: "result_queue ex_world = []" by (simp add: ex_world_def)
  have v2: "result_queue (snd (Image_asyncio_sessions (ex_image ''async'') ex_config ex_env sch [PInt 1] ex_world))
      = [''Fetch succeeded: http://images.stockfreeimages.com/a.jpg'',
         ''Fetch succeeded: http://images.stockfreeimages.com/b.jpg'']"
    using Image_async_records[OF o2, of sch] q0 by simp
  have r3: "Image_run (ex_image ''sync'') ex_config ex_env sch [PInt 2, PStr ''done''] ex_world
      = Some ((Inr (), Image_sync_process (ex_image ''sync'') ex_env [PInt 2] ex_world), [])"
    using Image_run_first_done[of "[PInt 2]" "ex_image ''sync''" ex_config ex_env sch "[]" ex_world] ms
    by simp
  have v3: "result_queue (Image_sync_process (ex_image ''sync'') ex_env [PInt 2] ex_world) = []"
    by code_simp
  have c: "count_failed 1 [] = None" by code_simp
  show ?thesis unfolding r1 r2 r3 using v1 v2 v3 c by simp
qed


text \<open>
  C2. A response other than 200 gives a failure record and no file.
  For the image of page 2, served with 404, the concurrent image worker creates the file,
  fails on writing the str \<open>failed\<close> to it and reports nothing, under every schedule; the
  sequential image worker writes no file and reports nothing either.
\<close>

theorem image_not_200_no_failure_record:
  "fst (Image_asyncio_sessions (ex_image ''async'') ex_config ex_env sch [PInt 2] ex_world) = Inl TypeError
   \<and> result_queue (snd (Image_asyncio_sessions (ex_image ''async'') ex_config ex_env sch [PInt 2] ex_world)) = []
   \<and> files (snd (Image_asyncio_sessions (ex_image ''async'') ex_config ex_env sch [PInt 2] ex_world))
       ''out/d.jpg'' = Some []
   \<and> result_queue (Image_sync_process (ex_image ''sync'') ex_env [PInt 2] ex_world) = []
   \<and> files (Image_sync_process (ex_image ''sync'') ex_env [PInt 2] ex_world) ''images/d.jpg'' = None"
proof -
  have one: "length (fst (Image_collect (ex_image ''async'') ex_config ex_env [PInt 2] [] ex_world)) \<le> 1"
    by code_simp
  have s: "Image_asyncio_sessions (ex_image ''async'') ex_config ex_env sch [PInt 2] ex_world
         = Image_asyncio_sessions (ex_image ''async'') ex_config ex_env [] [PInt 2] ex_world"
    using one by (rule Image_async_single)
  have v: "fst (Image_asyncio_sessions (ex_image ''async'') ex_config ex_env [] [PInt 2] ex_world) = Inl TypeError
   \<and> result_queue (snd (Image_asyncio_sessions (ex_image ''async'') ex_config ex_env [] [PInt 2] ex_world)) = []
   \<and> files (snd (Image_asyncio_sessions (ex_image ''async'') ex_config ex_env [] [PInt 2] ex_world))
       ''out/d.jpg'' = Some []
   \<and> result_queue (Image_sync_process (ex_image ''sync'') ex_env [PInt 2] ex_world) = []
   \<and> files (Image_sync_process (ex_image ''sync'') ex_env [PInt 2] ex_world) ''images/d.jpg'' = None"
    by code_simp
  show ?thesis unfolding s by (rule v)
qed


text \<open>
  C3. A successful ticker fetch appends to the ticker's file in both modes.
  With \<open>old\<close> in \<open>tickerdata/AAA.csv\<close> and the body \<open>new\<close> served for \<open>AAA\<close>, the
  concurrent mode leaves \<open>oldnew\<close> in the file, under every schedule, and the sequential
  mode leaves \<open>new\<close>.
\<close>

theorem ticker_sync_truncates:
  "files (Ticker_sync_process (ex_ticker ''sync'') ex_env [''AAA''] ex_world_old)
     ''tickerdata/AAA.csv'' = Some ''new''
   \<and> files (snd (Ticker_asyncio_sessions (ex_ticker ''async'') ex_env sch [''AAA''] ex_world_old))
     ''tickerdata/AAA.csv'' = Some ''oldnew''"
proof -
  have s: "Ticker_asyncio_sessions (ex_ticker ''async'') ex_env sch [''AAA''] ex_world_old
         = Ticker_asyncio_sessions (ex_ticker ''async'') ex_env [] [''AAA''] ex_world_old"
    by (rule Ticker_async_single) simp
  have v: "files (Ticker_sync_process (ex_ticker ''sync'') ex_env [''AAA''] ex_world_old)
     ''tickerdata/AAA.csv'' = Some ''new''
   \<and> files (snd (Ticker_asyncio_sessions (ex_ticker ''async'') ex_env [] [''AAA''] ex_world_old))
     ''tickerdata/AAA.csv'' = Some ''oldnew''"
    by code_simp
  show ?thesis unfolding s by (rule v)
qed


text \<open>
  C4. The coordinator enqueues as many tasks as items were requested, then one sentinel
  per worker, and reads the result queue once per requested item.
  The ticker coordinator asked for two tickers of a configuration that lists one enqueues
  one task and one sentinel and starts a tally of two rounds; the one record its worker
  can send does not end the tally.
\<close>

theorem ticker_main_enqueues_fewer:
  "map_sum id (\<lambda>co. (enqueued co, length (workers co), reads co, fail_count co))
     (Ticker_main (parse_clargs ''sync'' 2 1 ''conf.json'' ''tickerdata'') ex_env ex_ticker_config
        [''AAA fetch succeeded''])
   = Inr ([''AAA'', ''done''], 1, 2, None)"
  by code_simp


text \<open>
  C5. With \<open>n\<close> workers and \<open>n\<close> sentinels put after the tasks, every worker leaves its
  intake loop at the first sentinel it takes, takes exactly one sentinel, and keeps no
  sentinel in its batch. The statement is about every state \<open>s\<close> that the coordinator's
  puts and the workers' takes can reach in any order: each worker has taken its batch,
  followed by one sentinel if and only if it has left the loop; no further step is
  possible only when every worker has left its loop; and every step lowers
  \<open>pool_measure\<close>, so no run goes on for ever. The ticker workers are the instance
  \<open>d = ''done''\<close>, the image workers the instance \<open>d = PStr ''done''\<close>.
\<close>

theorem one_sentinel_per_worker:
  assumes "(pool_step d)\<^sup>*\<^sup>* (pool_init (tasks @ replicate n d) n) s"
  shows "length (intakes s) = n
       \<and> list_all (\<lambda>wk. d \<notin> set (batch wk) \<and> got wk = batch wk @ (if running wk then [] else [d]))
           (intakes s)
       \<and> ((\<forall>s'. \<not> pool_step d s s') \<longrightarrow>
            pending s = [] \<and> list_all (\<lambda>wk. \<not> running wk \<and> got wk = batch wk @ [d]) (intakes s))
       \<and> (\<forall>s'. pool_step d s s' \<longrightarrow> pool_measure s' < pool_measure s)"
proof -
  have inv: "pool_inv d n s" using assms by (rule pool_reach_inv)
  have a: "length (intakes s) = n" using inv by (simp add: pool_inv_def)
  have b: "list_all (\<lambda>wk. d \<notin> set (batch wk) \<and> got wk = batch wk @ (if running wk then [] else [d]))
           (intakes s)"
    using inv by (simp add: pool_inv_def intake_ok_def[abs_def])
  have c: "pending s = [] \<and> list_all (\<lambda>wk. \<not> running wk \<and> got wk = batch wk @ [d]) (intakes s)"
    if "\<forall>s'. \<not> pool_step d s s'"
  proof -
    have "pending s = [] \<and> list_all (\<lambda>wk. \<not> running wk) (intakes s)"
      using that inv by (rule pool_stuck)
    then show ?thesis using b by (auto simp: list_all_iff)
  qed
  have e: "\<forall>s'. pool_step d s s' \<longrightarrow> pool_measure s' < pool_measure s"
    using pool_step_measure[of d s] by simp
  from a b c e show ?thesis by simp
qed


theorem one_sentinel_per_worker_witness:
  "(pool_step ''done'')\<^sup>*\<^sup>* (pool_init ([''AAA''] @ replicate 2 ''done'') 2) ex_final
   \<and> (\<forall>s'. \<not> pool_step ''done'' ex_final s')
   \<and> length (intakes ex_final) = 2
   \<and> list_all (\<lambda>wk. \<not> running wk \<and> got wk = batch wk @ [''done'']) (intakes ex_final)"
  using one_sentinel_per_worker[OF ex_reach] ex_reach ex_final_stuck by blast


text \<open>
  C6. The image coordinator raises the process count to the number of cores, the ticker
  coordinator lowers it to the number of cores.
  The ticker coordinator starts \<open>min p cores\<close> workers. The image coordinator reads
  \<^verbatim>\<open>args.parallel\<close>, an attribute its parser never sets (the option is \<^verbatim>\<open>--process\<close>), and
  ends with AttributeError before it starts any worker, whatever the arguments.
\<close>

theorem image_main_attribute_error:
  "Image_main (parse_cli_args m p) e cfg rs = Inl AttributeError
   \<and> (\<exists>co. Ticker_main (parse_clargs m c p t out) e tc rs = Inr co
          \<and> int (length (workers co)) = max 0 (min p (cpu_count e)))"
  by (simp add: Image_main_def parse_cli_args_def Ticker_main_def parse_clargs_def
        getattr_int_def getattr_str_def bind_err_def Let_def)


text \<open>
  C7. In concurrent mode a worker puts no status record before every fetch and save of
  its batch is over. Under every schedule \<open>sch\<close> of the event loop, the events a session
  adds are a run \<open>io\<close> without any put, followed by the puts of the records \<open>rs\<close>. When the
  session ends normally there is one record per item, and \<open>io\<close> holds every event of
  every coroutine of the batch (\<open>trace\<close>: its fetch, and the open and the write of its
  file). When it ends with an exception there is no put at all, however far the other
  coroutines have got.
\<close>

theorem batched_emission:
  "(\<exists>io rs. events (snd (Ticker_asyncio_sessions self e sch ts w)) = events w @ io @ map EPut rs \<and>
            quiet io \<and>
            result_queue (snd (Ticker_asyncio_sessions self e sch ts w)) = result_queue w @ rs \<and>
            length rs = length ts \<and>
            list_all (\<lambda>t. set (trace e (Ticker_aio_process self t)) \<subseteq> set io) ts)
   \<and>
   (\<exists>io rs. events (snd (Image_asyncio_sessions iself cfg e sch pages w)) = events w @ io @ map EPut rs \<and>
            quiet io \<and>
            result_queue (snd (Image_asyncio_sessions iself cfg e sch pages w)) = result_queue w @ rs \<and>
            (if fst (Image_asyncio_sessions iself cfg e sch pages w) = Inr ()
             then length rs = length (fst (Image_collect iself cfg e pages [] w)) \<and>
                  list_all (\<lambda>u. set (trace e (Image_aio_process cfg u ''image'')) \<subseteq> set io)
                    (fst (Image_collect iself cfg e pages [] w))
             else rs = []))"
proof
  let ?cs = "map (Ticker_aio_process self) ts"
  obtain g w1 where gw: "gather e sch ?cs w = (g, w1)" by (cases "gather e sch ?cs w")
  have g: "g = Inr (map (ticker_record_async self e) ts)" using gw by (rule Ticker_gather)
  from gather_inv[OF gw] obtain io where io: "events w1 = events w @ io" "quiet io"
      "\<forall>rs. g = Inr rs \<longrightarrow> (\<forall>c\<in>set ?cs. set (trace e c) \<subseteq> set io)"
    and q: "result_queue w1 = result_queue w"
    by blast
  have sub: "list_all (\<lambda>t. set (trace e (Ticker_aio_process self t)) \<subseteq> set io) ts"
    using io(3) g by (simp add: list_all_iff)
  show "\<exists>io rs. events (snd (Ticker_asyncio_sessions self e sch ts w)) = events w @ io @ map EPut rs \<and>
            quiet io \<and>
            result_queue (snd (Ticker_asyncio_sessions self e sch ts w)) = result_queue w @ rs \<and>
            length rs = length ts \<and>
            list_all (\<lambda>t. set (trace e (Ticker_aio_process self t)) \<subseteq> set io) ts"
    using gw g io(1,2) q sub
    by (intro exI[of _ io] exI[of _ "map (ticker_record_async self e) ts"])
       (simp add: Ticker_asyncio_sessions_def put_all_events put_all_result_queue)
next
  let ?f = "\<lambda>image_url. Image_aio_process cfg image_url ''image''"
  obtain tasks w1 where cw: "Image_collect iself cfg e pages [] w = (tasks, w1)"
    by (cases "Image_collect iself cfg e pages [] w")
  obtain io1 where io1: "events w1 = events w @ io1" "quiet io1" "result_queue w1 = result_queue w"
    using Image_collect_events[of iself cfg e pages "[]" w] cw by auto
  obtain g w2 where gw: "gather e sch (map ?f tasks) w1 = (g, w2)"
    by (cases "gather e sch (map ?f tasks) w1")
  from gather_inv[OF gw] obtain io2 where io2: "events w2 = events w1 @ io2" "quiet io2"
      "\<forall>rs. g = Inr rs \<longrightarrow> (\<forall>c\<in>set (map ?f tasks). set (trace e c) \<subseteq> set io2)"
    and q2: "result_queue w2 = result_queue w1"
    and m: "\<forall>rs. g = Inr rs \<longrightarrow> map Inr rs = map (outcome e) (map ?f tasks)"
    by blast
  have qq: "quiet (io1 @ io2)" using io1 io2 by (simp add: quiet_append)
  show "\<exists>io rs. events (snd (Image_asyncio_sessions iself cfg e sch pages w)) = events w @ io @ map EPut rs \<and>
            quiet io \<and>
            result_queue (snd (Image_asyncio_sessions iself cfg e sch pages w)) = result_queue w @ rs \<and>
            (if fst (Image_asyncio_sessions iself cfg e sch pages w) = Inr ()
             then length rs = length (fst (Image_collect iself cfg e pages [] w)) \<and>
                  list_all (\<lambda>u. set (trace e (Image_aio_process cfg u ''image'')) \<subseteq> set io)
                    (fst (Image_collect iself cfg e pages [] w))
             else rs = [])"
  proof (cases g)
    case (Inl err)
    then show ?thesis using cw gw io1 io2(1,2) q2 qq
      by (intro exI[of _ "io1 @ io2"] exI[of _ "[]"]) (simp add: Image_asyncio_sessions_def)
  next
    case (Inr rs)
    have "map Inr rs = map (outcome e) (map ?f tasks)" using m Inr by blast
    then have "length (map Inr rs :: (error + string) list) = length (map (outcome e) (map ?f tasks))"
      by simp
    then have len: "length rs = length tasks" by simp
    have "\<forall>c\<in>set (map ?f tasks). set (trace e c) \<subseteq> set io2" using io2(3) Inr by blast
    then have sub: "list_all (\<lambda>u. set (trace e (?f u)) \<subseteq> set (io1 @ io2)) tasks"
      by (auto simp: list_all_iff)
    show ?thesis using Inr cw gw io1 io2(1,2) q2 qq len sub
      by (intro exI[of _ "io1 @ io2"] exI[of _ rs])
         (simp add: Image_asyncio_sessions_def put_all_events put_all_result_queue)
  qed
qed


text \<open>
  Two schedules that interleave the coroutines. On page 3 the image served with 404 comes
  first: after its fetch the event loop runs the coroutine of the second image to its end,
  fetch and save, then the first one up to its exception, and nothing is put. For two tickers, the fetch of the second
  falls between the fetch and the save of the first, and both puts come last.
\<close>

theorem batched_emission_witness:
  "fst (Image_asyncio_sessions (ex_image ''async'') ex_config ex_env [0, 1, 1, 1, 0] [PInt 3] ex_world)
     = Inl TypeError
   \<and> events (snd (Image_asyncio_sessions (ex_image ''async'') ex_config ex_env [0, 1, 1, 1, 0] [PInt 3] ex_world))
     = [EGet ''http://x/p3/cat.html'',
        EGet ''http://images.stockfreeimages.com/d.jpg'',
        EGet ''http://images.stockfreeimages.com/a.jpg'', EOpen ''out/a.jpg'', EWrite ''out/a.jpg'',
        EOpen ''out/d.jpg'']
   \<and> (\<exists>io. events (snd (Image_asyncio_sessions (ex_image ''async'') ex_config ex_env [0, 1, 1, 1, 0] [PInt 3] ex_world))
          = events ex_world @ io @ map EPut [] \<and> quiet io)
   \<and> events (snd (Ticker_asyncio_sessions (ex_ticker ''async'') ex_env [0, 1, 0] [''AAA'', ''BBB''] ex_world))
     = [EGet ''http://t/AAA'', EGet ''http://t/BBB'', EOpen ''tickerdata/AAA.csv'', EWrite ''tickerdata/AAA.csv'',
        EPut ''AAA fetch succeeded'', EPut ''BBB fetch failed'']"
proof -
  have a: "fst (Image_asyncio_sessions (ex_image ''async'') ex_config ex_env [0, 1, 1, 1, 0] [PInt 3] ex_world)
     = Inl TypeError" by code_simp
  have b: "events (snd (Image_asyncio_sessions (ex_image ''async'') ex_config ex_env [0, 1, 1, 1, 0] [PInt 3] ex_world))
     = [EGet ''http://x/p3/cat.html'',
        EGet ''http://images.stockfreeimages.com/d.jpg'',
        EGet ''http://images.stockfreeimages.com/a.jpg'', EOpen ''out/a.jpg'', EWrite ''out/a.jpg'',
        EOpen ''out/d.jpg'']" by code_simp
  have c: "events (snd (Ticker_asyncio_sessions (ex_ticker ''async'') ex_env [0, 1, 0] [''AAA'', ''BBB''] ex_world))
     = [EGet ''http://t/AAA'', EGet ''http://t/BBB'', EOpen ''tickerdata/AAA.csv'', EWrite ''tickerdata/AAA.csv'',
        EPut ''AAA fetch succeeded'', EPut ''BBB fetch failed'']" by code_simp
  have ne: "Inl TypeError \<noteq> (Inr () :: error + unit)" by simp
  from batched_emission [of "ex_ticker ''async''" ex_env "[0, 1, 1, 1, 0]" "[]" ex_world
        "ex_image ''async''" ex_config "[PInt 3]"]
  obtain io rs where io:
      "events (snd (Image_asyncio_sessions (ex_image ''async'') ex_config ex_env [0, 1, 1, 1, 0] [PInt 3] ex_world))
         = events ex_world @ io @ map EPut rs" "quiet io"
      "(if fst (Image_asyncio_sessions (ex_image ''async'') ex_config ex_env [0, 1, 1, 1, 0] [PInt 3] ex_world) = Inr ()
        then length rs = length (fst (Image_collect (ex_image ''async'') ex_config ex_env [PInt 3] [] ex_world)) \<and>
             list_all (\<lambda>u. set (trace ex_env (Image_aio_process ex_config u ''image'')) \<subseteq> set io)
               (fst (Image_collect (ex_image ''async'') ex_config ex_env [PInt 3] [] ex_world))
        else rs = [])"
    by blast
  have "rs = []" using io(3) a ne by (simp only: if_False)
  then have d: "\<exists>io. events (snd (Image_asyncio_sessions (ex_image ''async'') ex_config ex_env [0, 1, 1, 1, 0] [PInt 3] ex_world))
          = events ex_world @ io @ map EPut [] \<and> quiet io"
    using io(1,2) by blast
  from a b d c show ?thesis by (intro conjI)
qed


text \<open>
  C8. The image worker keeps the image URLs that contain the host name and saves each
  image to the output directory under the last segment of its URL.
  With the output directory \<open>out\<close>, the concurrent mode saves image \<open>a.jpg\<close> to
  \<open>out/a.jpg\<close> (under the schedule that runs the coroutines in their order, and under one
  that interleaves them); the sequential mode saves it to \<open>images/a.jpg\<close> and leaves
  \<open>out/a.jpg\<close> missing. In both modes the image of the other host is not fetched.
\<close>

theorem image_sync_saves_under_images:
  "files (Image_sync_process (ex_image ''sync'') ex_env [PInt 1] ex_world) ''images/a.jpg'' = Some ''AAAA''
   \<and> files (Image_sync_process (ex_image ''sync'') ex_env [PInt 1] ex_world) ''out/a.jpg'' = None
   \<and> files (snd (Image_asyncio_sessions (ex_image ''async'') ex_config ex_env [] [PInt 1] ex_world))
       ''out/a.jpg'' = Some ''AAAA''
   \<and> files (snd (Image_asyncio_sessions (ex_image ''async'') ex_config ex_env [0, 1, 1, 0, 1, 0] [PInt 1] ex_world))
       ''out/a.jpg'' = Some ''AAAA''
   \<and> filter (\<lambda>ev. ev = EGet ''http://other/c.png'')
       (events (Image_sync_process (ex_image ''sync'') ex_env [PInt 1] ex_world)) = []
   \<and> filter (\<lambda>ev. ev = EGet ''http://other/c.png'')
       (events (snd (Image_asyncio_sessions (ex_image ''async'') ex_config ex_env [] [PInt 1] ex_world))) = []
   \<and> filter (\<lambda>ev. ev = EGet ''http://other/c.png'')
       (events (snd (Image_asyncio_sessions (ex_image ''async'') ex_config ex_env [0, 1, 1, 0, 1, 0] [PInt 1] ex_world))) = []"
  by code_simp









end
